theory Spec2Isabelle
  imports Main
begin

section \<open>Data model of \<open>event-loop-simulator.js\<close>\<close>

text \<open>
  The eight keys of \<open>this.queues\<close> (and the eight values of \<open>QUEUE_NAMES\<close>, which are
  the same strings).
\<close>

datatype qname =
    NextTick | Microtasks | Timers | PendingCallbacks
  | IdlePrepare | Poll | Check | CloseCallbacks

fun QUEUE_NAMES :: "qname \<Rightarrow> string" where
  "QUEUE_NAMES NextTick = ''nextTick''"
| "QUEUE_NAMES Microtasks = ''microtasks''"
| "QUEUE_NAMES Timers = ''timers''"
| "QUEUE_NAMES PendingCallbacks = ''pendingCallbacks''"
| "QUEUE_NAMES IdlePrepare = ''idlePrepare''"
| "QUEUE_NAMES Poll = ''poll''"
| "QUEUE_NAMES Check = ''check''"
| "QUEUE_NAMES CloseCallbacks = ''closeCallbacks''"

text \<open>
  What JavaScript lets a caller push into a queue: a function, identified here by a
  number, or a value that cannot be called. \<open>push\<close> takes any of them.
\<close>

type_synonym fid = nat

datatype jsval = Fn fid | Undefined | Num int | Str string

text \<open>
  What a function does when it is called, as far as the simulator can see: it calls the
  \<open>queue...\<close> methods some number of times, in order, and then either returns or throws.
  (A function that throws half way is one whose list stops at the throw.) The environment
  gives the behaviour of every function; a function may name itself or any other
  function in what it enqueues, so a drain may go on forever.
\<close>

datatype completion = Returns | Throws

type_synonym behaviour = "(qname \<times> jsval) list \<times> completion"

type_synonym env = "fid \<Rightarrow> behaviour"

text \<open>
  The observable history: the lines \<open>log\<close> prints (phase and message), and, as an
  observation added by the model, each call of a dequeued item together with the queue
  it was shifted from.
\<close>

datatype event = Log qname string | Invoke qname jsval

record EventLoopSimulator =
  queues :: "qname \<Rightarrow> jsval list"
  running :: bool
  trace :: "event list"

datatype error = TypeError jsval | Exception fid

text \<open>
  An exception leaves the object as it was when it was raised: \<open>Inl (e, s)\<close> is the
  exception \<open>e\<close> leaving state \<open>s\<close> behind, \<open>Inr s\<close> a normal return. A function that may
  loop returns \<open>None\<close> when it does not terminate.
\<close>

type_synonym result = "(error \<times> EventLoopSimulator) + EventLoopSimulator"

section \<open>Operations\<close>

definition constructor :: EventLoopSimulator where
  "constructor = \<lparr>queues = (\<lambda>_. []), running = False, trace = []\<rparr>"

definition log :: "qname \<Rightarrow> string \<Rightarrow> EventLoopSimulator \<Rightarrow> EventLoopSimulator" where
  "log phase msg s = s\<lparr>trace := trace s @ [Log phase msg]\<rparr>"

definition queueNextTick :: "jsval \<Rightarrow> EventLoopSimulator \<Rightarrow> EventLoopSimulator" where
  "queueNextTick callback s = s\<lparr>queues := (queues s)(NextTick := queues s NextTick @ [callback])\<rparr>"

definition queueMicrotask :: "jsval \<Rightarrow> EventLoopSimulator \<Rightarrow> EventLoopSimulator" where
  "queueMicrotask callback s = s\<lparr>queues := (queues s)(Microtasks := queues s Microtasks @ [callback])\<rparr>"

definition queueTimer :: "jsval \<Rightarrow> EventLoopSimulator \<Rightarrow> EventLoopSimulator" where
  "queueTimer callback s = s\<lparr>queues := (queues s)(Timers := queues s Timers @ [callback])\<rparr>"

definition queuePendingCallback :: "jsval \<Rightarrow> EventLoopSimulator \<Rightarrow> EventLoopSimulator" where
  "queuePendingCallback callback s =
     s\<lparr>queues := (queues s)(PendingCallbacks := queues s PendingCallbacks @ [callback])\<rparr>"

definition queueIdlePrepare :: "jsval \<Rightarrow> EventLoopSimulator \<Rightarrow> EventLoopSimulator" where
  "queueIdlePrepare callback s =
     s\<lparr>queues := (queues s)(IdlePrepare := queues s IdlePrepare @ [callback])\<rparr>"

definition queuePoll :: "jsval \<Rightarrow> EventLoopSimulator \<Rightarrow> EventLoopSimulator" where
  "queuePoll callback s = s\<lparr>queues := (queues s)(Poll := queues s Poll @ [callback])\<rparr>"

definition queueCheck :: "jsval \<Rightarrow> EventLoopSimulator \<Rightarrow> EventLoopSimulator" where
  "queueCheck callback s = s\<lparr>queues := (queues s)(Check := queues s Check @ [callback])\<rparr>"

definition queueCloseCallback :: "jsval \<Rightarrow> EventLoopSimulator \<Rightarrow> EventLoopSimulator" where
  "queueCloseCallback callback s =
     s\<lparr>queues := (queues s)(CloseCallbacks := queues s CloseCallbacks @ [callback])\<rparr>"

text \<open>The \<open>queue...\<close> method a callback calls to enqueue into a given queue.\<close>

fun enqueue :: "qname \<Rightarrow> jsval \<Rightarrow> EventLoopSimulator \<Rightarrow> EventLoopSimulator" where
  "enqueue NextTick = queueNextTick"
| "enqueue Microtasks = queueMicrotask"
| "enqueue Timers = queueTimer"
| "enqueue PendingCallbacks = queuePendingCallback"
| "enqueue IdlePrepare = queueIdlePrepare"
| "enqueue Poll = queuePoll"
| "enqueue Check = queueCheck"
| "enqueue CloseCallbacks = queueCloseCallback"

fun run_body :: "(qname \<times> jsval) list \<Rightarrow> EventLoopSimulator \<Rightarrow> EventLoopSimulator" where
  "run_body [] s = s"
| "run_body ((q, cb) # rest) s = run_body rest (enqueue q cb s)"

text \<open>
  \<open>task()\<close> on an item shifted from queue \<open>q\<close>. Calling a value that is not a function
  raises a \<open>TypeError\<close>; a function performs its enqueues and returns or throws.
\<close>

fun invoke :: "env \<Rightarrow> qname \<Rightarrow> jsval \<Rightarrow> EventLoopSimulator \<Rightarrow> result" where
  "invoke env q (Fn f) s =
     (let s' = run_body (fst (env f)) (s\<lparr>trace := trace s @ [Invoke q (Fn f)]\<rparr>)
      in case snd (env f) of Returns \<Rightarrow> Inr s' | Throws \<Rightarrow> Inl (Exception f, s'))"
| "invoke env q v s = Inl (TypeError v, s\<lparr>trace := trace s @ [Invoke q v]\<rparr>)"

text \<open>
  \<open>this.queues.q.shift()\<close>: removes and returns the first element; on an empty array it
  returns \<open>undefined\<close> and leaves the array empty.
\<close>

definition shift :: "qname \<Rightarrow> EventLoopSimulator \<Rightarrow> jsval \<times> EventLoopSimulator" where
  "shift q s =
     (case queues s q of
        [] \<Rightarrow> (Undefined, s)
      | x # rest \<Rightarrow> (x, s\<lparr>queues := (queues s)(q := rest)\<rparr>))"

text \<open>
  The loop of \<open>runNextTick\<close> and of \<open>runMicrotasks\<close>, which differ only in the queue:
  \<open>while (this.queues.q.length > 0) { const task = this.queues.q.shift(); task(); }\<close>.
  The length is read again at every iteration.
\<close>

partial_function (option) drain :: "env \<Rightarrow> qname \<Rightarrow> EventLoopSimulator \<Rightarrow> result option" where
  "drain env q s =
     (if length (queues s q) > 0 then
        (case shift q s of
           (task, s0) \<Rightarrow>
             (case invoke env q task s0 of
                Inl e \<Rightarrow> Some (Inl e)
              | Inr s' \<Rightarrow> drain env q s'))
      else Some (Inr s))"

declare drain.simps [code]

text \<open>Sequencing of two steps, the second skipped when the first throws or never returns.\<close>

definition and_then :: "result option \<Rightarrow> (EventLoopSimulator \<Rightarrow> result option) \<Rightarrow> result option" where
  "and_then r k = (case r of None \<Rightarrow> None | Some (Inl e) \<Rightarrow> Some (Inl e) | Some (Inr s) \<Rightarrow> k s)"

definition runNextTick :: "env \<Rightarrow> EventLoopSimulator \<Rightarrow> result option" where
  "runNextTick env s =
     and_then (drain env NextTick (log NextTick ''nextTick phase started'' s))
       (\<lambda>s'. Some (Inr (log NextTick ''nextTick phase completed'' s')))"

definition runMicrotasks :: "env \<Rightarrow> EventLoopSimulator \<Rightarrow> result option" where
  "runMicrotasks env s =
     and_then (drain env Microtasks (log Microtasks ''Microtasks phase started'' s))
       (\<lambda>s'. Some (Inr (log Microtasks ''Microtasks phase completed'' s')))"

definition runNextTickAndMicrotasks :: "env \<Rightarrow> EventLoopSimulator \<Rightarrow> result option" where
  "runNextTickAndMicrotasks env s = and_then (runNextTick env s) (runMicrotasks env)"

text \<open>
  One iteration of the loop of \<open>runPhase\<close>:
  \<open>const callback = queue.shift(); callback(); this.runMicrotasks();\<close>.
  \<open>queue\<close> is a reference to one of the arrays of \<open>this.queues\<close>, so what a callback
  pushes into that array is seen by the loop.
\<close>

definition phaseIteration :: "env \<Rightarrow> qname \<Rightarrow> EventLoopSimulator \<Rightarrow> result option" where
  "phaseIteration env queue s =
     (case shift queue s of
        (callback, s0) \<Rightarrow>
          (case invoke env queue callback s0 of
             Inl e \<Rightarrow> Some (Inl e)
           | Inr s1 \<Rightarrow> runMicrotasks env s1))"

text \<open>The loop of \<open>runPhase\<close>: \<open>while (queue.length > 0) { ... }\<close>.\<close>

partial_function (option) phaseLoop :: "env \<Rightarrow> qname \<Rightarrow> EventLoopSimulator \<Rightarrow> result option" where
  "phaseLoop env queue s =
     (if length (queues s queue) > 0 then
        Option.bind (phaseIteration env queue s)
          (\<lambda>r. case r of Inl e \<Rightarrow> Some (Inl e) | Inr s2 \<Rightarrow> phaseLoop env queue s2)
      else Some (Inr s))"

declare phaseLoop.simps [code]

definition runPhase :: "env \<Rightarrow> qname \<Rightarrow> qname \<Rightarrow> EventLoopSimulator \<Rightarrow> result option" where
  "runPhase env phase queue s =
     and_then (runNextTick env s) (\<lambda>s1.
     and_then (phaseLoop env queue (log phase (''>> '' @ QUEUE_NAMES phase @ '' phase started'') s1)) (\<lambda>s2.
     Some (Inr (log phase (''>> '' @ QUEUE_NAMES phase @ '' phase completed'') s2))))"

definition tick :: "env \<Rightarrow> EventLoopSimulator \<Rightarrow> result option" where
  "tick env s =
     and_then (runPhase env Timers Timers s) (\<lambda>s.
     and_then (runPhase env PendingCallbacks PendingCallbacks s) (\<lambda>s.
     and_then (runPhase env IdlePrepare IdlePrepare s) (\<lambda>s.
     and_then (runPhase env Poll Poll s) (\<lambda>s.
     and_then (runPhase env Check Check s) (\<lambda>s.
     runPhase env CloseCallbacks CloseCallbacks s)))))"

section \<open>Observations on runs\<close>

definition state_of :: "result \<Rightarrow> EventLoopSimulator" where
  "state_of r = (case r of Inl (e, s) \<Rightarrow> s | Inr s \<Rightarrow> s)"


text \<open>Calling \<open>v\<close> raises: \<open>v\<close> is not a function, or it is a function that throws.\<close>

fun throws :: "env \<Rightarrow> jsval \<Rightarrow> bool" where
  "throws env (Fn f) = (snd (env f) = Throws)"
| "throws env v = True"

fun error_of :: "jsval \<Rightarrow> error" where
  "error_of (Fn f) = Exception f"
| "error_of v = TypeError v"

text \<open>The items that a call of \<open>v\<close> pushes into queue \<open>q\<close>, in order.\<close>

fun enqueued_by :: "env \<Rightarrow> qname \<Rightarrow> jsval \<Rightarrow> jsval list" where
  "enqueued_by env q (Fn f) = map snd (filter (\<lambda>c. fst c = q) (fst (env f)))"
| "enqueued_by env q v = []"

text \<open>The items called in a stretch of the history: all of them, and those taken from \<open>q\<close>.\<close>

fun invoked :: "event list \<Rightarrow> jsval list" where
  "invoked [] = []"
| "invoked (Log p m # evs) = invoked evs"
| "invoked (Invoke q v # evs) = v # invoked evs"

fun invoked_from :: "qname \<Rightarrow> event list \<Rightarrow> jsval list" where
  "invoked_from q [] = []"
| "invoked_from q (Log p m # evs) = invoked_from q evs"
| "invoked_from q (Invoke q' v # evs) =
     (if q' = q then v # invoked_from q evs else invoked_from q evs)"

text \<open>Everything pushed into \<open>q\<close> by the calls of a stretch of the history, in order.\<close>

fun enqueued_during :: "env \<Rightarrow> qname \<Rightarrow> event list \<Rightarrow> jsval list" where
  "enqueued_during env q [] = []"
| "enqueued_during env q (Log p m # evs) = enqueued_during env q evs"
| "enqueued_during env q (Invoke q' v # evs) = enqueued_by env q v @ enqueued_during env q evs"

text \<open>
  A run from \<open>s\<close> to \<open>s'\<close> with history \<open>evs\<close> keeps every queue first-in first-out and
  loses nothing: what was in the queue followed by what was pushed into it is what was
  called from it followed by what is left in it.
\<close>

definition conserved :: "env \<Rightarrow> EventLoopSimulator \<Rightarrow> event list \<Rightarrow> EventLoopSimulator \<Rightarrow> bool" where
  "conserved env s evs s' \<longleftrightarrow>
     trace s' = trace s @ evs \<and> running s' = running s \<and>
     (\<forall>q. queues s q @ enqueued_during env q evs = invoked_from q evs @ queues s' q)"

text \<open>An event that belongs to one of the queues of \<open>Q\<close>.\<close>

fun ev_in :: "qname set \<Rightarrow> event \<Rightarrow> bool" where
  "ev_in Q (Log p m) = (p \<in> Q)"
| "ev_in Q (Invoke q v) = (q \<in> Q)"

text \<open>No call in the stretch raised.\<close>

definition clean :: "env \<Rightarrow> event list \<Rightarrow> bool" where
  "clean env evs \<longleftrightarrow> (\<forall>v \<in> set (invoked evs). \<not> throws env v)"

text \<open>
  The history agrees with the result: a normal return has no raising call; an exception
  comes from the last event, the only raising call.
\<close>

definition outcome_ok :: "env \<Rightarrow> event list \<Rightarrow> result \<Rightarrow> bool" where
  "outcome_ok env evs r =
     (case r of
        Inr s' \<Rightarrow> clean env evs
      | Inl (e, s') \<Rightarrow>
          (\<exists>pre q v. evs = pre @ [Invoke q v] \<and> clean env pre \<and> throws env v \<and> e = error_of v))"

definition run_post :: "env \<Rightarrow> qname set \<Rightarrow> EventLoopSimulator \<Rightarrow> result \<Rightarrow> event list \<Rightarrow> bool" where
  "run_post env Q s r evs \<longleftrightarrow>
     conserved env s evs (state_of r) \<and> outcome_ok env evs r \<and> (\<forall>e \<in> set evs. ev_in Q e)"

text \<open>An event of the loop of \<open>runPhase\<close>: a call from the phase queue, or a line or call of \<open>runMicrotasks\<close>.\<close>

fun loop_ev :: "qname \<Rightarrow> event \<Rightarrow> bool" where
  "loop_ev queue (Log p m) = (p = Microtasks)"
| "loop_ev queue (Invoke q v) = (q = queue \<or> q = Microtasks)"

text \<open>The two messages of \<open>runPhase\<close>.\<close>

definition started :: "qname \<Rightarrow> string" where
  "started phase = ''>> '' @ QUEUE_NAMES phase @ '' phase started''"

definition completed :: "qname \<Rightarrow> string" where
  "completed phase = ''>> '' @ QUEUE_NAMES phase @ '' phase completed''"

text \<open>The queues \<open>tick\<close> passes to \<open>runPhase\<close>, in the order of its six calls.\<close>

definition phases :: "qname list" where
  "phases = [Timers, PendingCallbacks, IdlePrepare, Poll, Check, CloseCallbacks]"

text \<open>A sequence of \<open>runPhase\<close> calls, each on the queue of its own name.\<close>

fun run_phases :: "env \<Rightarrow> qname list \<Rightarrow> EventLoopSimulator \<Rightarrow> result option" where
  "run_phases env [] s = Some (Inr s)"
| "run_phases env (p # ps) s = and_then (runPhase env p p s) (run_phases env ps)"

text \<open>The history without the lines and calls of the two priority queues.\<close>

definition phase_view :: "event list \<Rightarrow> event list" where
  "phase_view evs = filter (\<lambda>e. \<not> ev_in {NextTick, Microtasks} e) evs"



text \<open>State \<open>s'\<close> is state \<open>s\<close> with \<open>cb\<close> appended to queue \<open>q\<close> and nothing else changed.\<close>

definition appended :: "qname \<Rightarrow> jsval \<Rightarrow> EventLoopSimulator \<Rightarrow> EventLoopSimulator \<Rightarrow> bool" where
  "appended q cb s s' \<longleftrightarrow>
     queues s' q = queues s q @ [cb] \<and> (\<forall>q'. q' \<noteq> q \<longrightarrow> queues s' q' = queues s q') \<and>
     running s' = running s \<and> trace s' = trace s"

text \<open>The 24 lines a tick prints when it finds nothing to call.\<close>

definition idle_tick_lines :: "event list" where
  "idle_tick_lines =
     concat (map (\<lambda>p. [Log NextTick ''nextTick phase started'',
                        Log NextTick ''nextTick phase completed'',
                        Log p (started p), Log p (completed p)]) phases)"

text \<open>What a run shows: the exception that left it, if any, and the calls made, in order.\<close>

fun is_call :: "event \<Rightarrow> bool" where
  "is_call (Invoke q v) = True"
| "is_call (Log p m) = False"

definition outcome :: "result option \<Rightarrow> (error option \<times> event list) option" where
  "outcome ro =
     map_option (\<lambda>r. case r of
         Inl (e, s) \<Rightarrow> (Some e, filter is_call (trace s))
       | Inr s \<Rightarrow> (None, filter is_call (trace s))) ro"



section \<open>Example programs\<close>

text \<open>Every function returns at once.\<close>

definition quiet :: env where
  "quiet f = ([], Returns)"



text \<open>
  Function 0 calls \<open>queueNextTick\<close> with function 1; function 2 calls \<open>queueMicrotask\<close> with
  function 3 and \<open>queueNextTick\<close> with function 4; the others return at once.
\<close>

definition reenters :: env where
  "reenters f =
     (if f = 0 then ([(NextTick, Fn 1)], Returns)
      else if f = 2 then ([(Microtasks, Fn 3), (NextTick, Fn 4)], Returns)
      else ([], Returns))"


text \<open>
  Function 0 calls \<open>queueTimer\<close> with function 6 and \<open>queueCheck\<close> with function 5; the
  others return at once.
\<close>

definition grows :: env where
  "grows f = (if f = 0 then ([(Timers, Fn 6), (Check, Fn 5)], Returns) else ([], Returns))"






text \<open>
  The sample program that comes with the simulator. It queues fifteen functions before
  its first tick, here numbered 0 to 9, 15, 16 and 18 to 20 in the order of the
  \<open>queue...\<close> calls; six of them push one or two more when called: the first nextTick
  callback pushes a microtask (10) and a nextTick callback (11), the first microtask
  pushes a microtask (12), the first timer pushes a check callback (13), the first poll
  callback pushes a nextTick callback (14) and the first check callback pushes a
  microtask (17).
\<close>

definition sample :: env where
  "sample f =
     (if f = 0 then ([(Microtasks, Fn 10), (NextTick, Fn 11)], Returns)
      else if f = 2 then ([(Microtasks, Fn 12)], Returns)
      else if f = 4 then ([(Check, Fn 13)], Returns)
      else if f = 9 then ([(NextTick, Fn 14)], Returns)
      else if f = 16 then ([(Microtasks, Fn 17)], Returns)
      else ([], Returns))"

definition sample_start :: EventLoopSimulator where
  "sample_start =
     (queueCloseCallback (Fn 20) \<circ> queueCloseCallback (Fn 19) \<circ>
      queueCheck (Fn 18) \<circ> queueCheck (Fn 16) \<circ> queuePoll (Fn 15) \<circ> queuePoll (Fn 9) \<circ>
      queueIdlePrepare (Fn 8) \<circ> queuePendingCallback (Fn 7) \<circ> queuePendingCallback (Fn 6) \<circ>
      queueTimer (Fn 5) \<circ> queueTimer (Fn 4) \<circ> queueMicrotask (Fn 3) \<circ> queueMicrotask (Fn 2) \<circ>
      queueNextTick (Fn 1) \<circ> queueNextTick (Fn 0)) constructor"

section \<open>Basic facts\<close>

lemma invoked_from_append [simp]:
  "invoked_from q (xs @ ys) = invoked_from q xs @ invoked_from q ys"
  by (induction q xs rule: invoked_from.induct) simp_all

lemma invoked_append [simp]: "invoked (xs @ ys) = invoked xs @ invoked ys"
  by (induction xs rule: invoked.induct) simp_all

lemma enqueued_during_append [simp]:
  "enqueued_during env q (xs @ ys) = enqueued_during env q xs @ enqueued_during env q ys"
  by (induction env q xs rule: enqueued_during.induct) simp_all

lemmas queue_defs =
  queueNextTick_def queueMicrotask_def queueTimer_def queuePendingCallback_def
  queueIdlePrepare_def queuePoll_def queueCheck_def queueCloseCallback_def

lemma enqueue_queues:
  "queues (enqueue q' cb s) q = (if q = q' then queues s q @ [cb] else queues s q)"
  by (cases q') (simp_all add: queue_defs)

lemma enqueue_frame [simp]:
  "trace (enqueue q' cb s) = trace s" "running (enqueue q' cb s) = running s"
  by (cases q'; simp add: queue_defs)+

lemma run_body_queues:
  "queues (run_body cs s) q = queues s q @ map snd (filter (\<lambda>c. fst c = q) cs)"
  by (induction cs s rule: run_body.induct) (simp_all add: enqueue_queues)

lemma run_body_frame [simp]:
  "trace (run_body cs s) = trace s" "running (run_body cs s) = running s"
  by (induction cs s rule: run_body.induct) simp_all

lemma invoke_state:
  "trace (state_of (invoke env q v s)) = trace s @ [Invoke q v]"
  "running (state_of (invoke env q v s)) = running s"
  "queues (state_of (invoke env q v s)) q' = queues s q' @ enqueued_by env q' v"
  by (cases v; simp add: state_of_def Let_def run_body_queues split: completion.split)+

lemma invoke_error:
  "invoke env q v s = Inl (e, s') \<Longrightarrow> e = error_of v \<and> throws env v"
  by (cases v) (auto simp: Let_def split: completion.splits)

lemma invoke_normal: "invoke env q v s = Inr s' \<Longrightarrow> \<not> throws env v"
  by (cases v) (auto simp: Let_def split: completion.splits)

lemma shift_Cons:
  "queues s q = v # rest \<Longrightarrow> shift q s = (v, s\<lparr>queues := (queues s)(q := rest)\<rparr>)"
  by (simp add: shift_def)

lemma conserved_refl: "conserved env s [] s"
  by (simp add: conserved_def)

lemma conserved_trans:
  "conserved env s xs s1 \<Longrightarrow> conserved env s1 ys s2 \<Longrightarrow> conserved env s (xs @ ys) s2"
  unfolding conserved_def
  by (metis append.assoc enqueued_during_append invoked_from_append)

lemma conserved_log: "conserved env s [Log p m] (log p m s)"
  by (simp add: conserved_def log_def)

lemma conserved_invoke:
  assumes "queues s q = v # rest"
  shows "conserved env s [Invoke q v]
           (state_of (invoke env q v (s\<lparr>queues := (queues s)(q := rest)\<rparr>)))"
  using assms by (simp add: conserved_def invoke_state)

lemma clean_Nil [simp]: "clean env []"
  by (simp add: clean_def)

lemma clean_append [simp]: "clean env (xs @ ys) \<longleftrightarrow> clean env xs \<and> clean env ys"
  by (auto simp: clean_def)

lemma clean_Log [simp]: "clean env [Log p m]"
  by (simp add: clean_def)

lemma clean_Invoke [simp]: "clean env [Invoke q v] \<longleftrightarrow> \<not> throws env v"
  by (simp add: clean_def)

lemma outcome_ok_prepend:
  "clean env xs \<Longrightarrow> outcome_ok env ys r \<Longrightarrow> outcome_ok env (xs @ ys) r"
  unfolding outcome_ok_def
  by (cases r) (auto intro: exI[where x="xs @ pre" for pre])

lemma ev_in_mono: "ev_in Q e \<Longrightarrow> Q \<subseteq> Q' \<Longrightarrow> ev_in Q' e"
  by (cases e) auto

lemma run_post_weaken: "run_post env Q s r evs \<Longrightarrow> Q \<subseteq> Q' \<Longrightarrow> run_post env Q' s r evs"
  unfolding run_post_def by (blast intro: ev_in_mono)

lemma run_post_step:
  assumes "run_post env Q s (Inr s1) xs" and "run_post env Q s1 r ys"
  shows "run_post env Q s r (xs @ ys)"
  using assms unfolding run_post_def
  by (auto simp: state_of_def outcome_ok_def[of env xs] intro: conserved_trans outcome_ok_prepend)

lemma run_post_refl: "run_post env Q s (Inr s) []"
  by (simp add: run_post_def state_of_def conserved_refl outcome_ok_def)

lemma run_post_log: "p \<in> Q \<Longrightarrow> run_post env Q s (Inr (log p m s)) [Log p m]"
  by (simp add: run_post_def state_of_def conserved_log outcome_ok_def)

lemma run_post_invoke:
  assumes "queues s q = v # rest" and "q \<in> Q"
  shows "run_post env Q s (invoke env q v (s\<lparr>queues := (queues s)(q := rest)\<rparr>)) [Invoke q v]"
proof -
  let ?r = "invoke env q v (s\<lparr>queues := (queues s)(q := rest)\<rparr>)"
  have "outcome_ok env [Invoke q v] ?r"
  proof (cases ?r)
    case (Inl a)
    then obtain e s' where "?r = Inl (e, s')" by (cases a) simp
    with invoke_error[OF this] show ?thesis
      by (simp add: outcome_ok_def)
  next
    case (Inr b)
    with invoke_normal[OF this] show ?thesis by (simp add: outcome_ok_def)
  qed
  with assms conserved_invoke[OF assms(1), of env] show ?thesis
    by (simp add: run_post_def)
qed

section \<open>The drain loop\<close>

lemma drain_post:
  assumes "drain env q s = Some r"
  shows "\<exists>evs. run_post env {q} s r evs \<and> evs = map (Invoke q) (invoked evs) \<and>
           (\<forall>s'. r = Inr s' \<longrightarrow> queues s' q = [])"
proof (induction rule: drain.raw_induct[OF _ assms])
  case (1 drain' env q s r)
  show ?case
  proof (cases "queues s q")
    case Nil
    with 1(2) have "r = Inr s" by simp
    with Nil have "run_post env {q} s r [] \<and> (\<forall>s'. r = Inr s' \<longrightarrow> queues s' q = [])"
      by (simp add: run_post_refl)
    then show ?thesis by (intro exI[of _ "[]"]) simp
  next
    case (Cons v rest)
    let ?r1 = "invoke env q v (s\<lparr>queues := (queues s)(q := rest)\<rparr>)"
    have step: "run_post env {q} s ?r1 [Invoke q v]"
      using run_post_invoke[OF Cons, of "{q}" env] by simp
    show ?thesis
    proof (cases ?r1)
      case (Inl a)
      with 1(2) Cons have "r = ?r1" by (simp add: shift_Cons)
      with step Inl show ?thesis by (intro exI[of _ "[Invoke q v]"]) simp
    next
      case (Inr s1)
      with 1(2) Cons have "drain' env q s1 = Some r" by (simp add: shift_Cons)
      from 1(1)[OF this] obtain evs where
        evs: "run_post env {q} s1 r evs" "evs = map (Invoke q) (invoked evs)"
          "\<forall>s'. r = Inr s' \<longrightarrow> queues s' q = []" by blast
      from step Inr evs(1) have "run_post env {q} s r ([Invoke q v] @ evs)"
        by (intro run_post_step) simp_all
      moreover from evs(2) have "[Invoke q v] @ evs = map (Invoke q) (invoked ([Invoke q v] @ evs))"
        by simp
      ultimately show ?thesis using evs(3) by blast
    qed
  qed
qed

section \<open>Phases and ticks\<close>

lemma and_then_Some:
  "and_then m k = Some r \<longleftrightarrow>
     (\<exists>x. m = Some (Inl x) \<and> r = Inl x) \<or> (\<exists>s1. m = Some (Inr s1) \<and> k s1 = Some r)"
  by (auto simp: and_then_def split: option.splits sum.splits)

lemma run_post_Inl:
  "run_post env Q s (Inl x) evs \<Longrightarrow> run_post env Q' s' (Inr s) xs \<Longrightarrow> Q' \<subseteq> Q
     \<Longrightarrow> run_post env Q s' (Inl x) (xs @ evs)"
  by (meson run_post_step run_post_weaken)

lemma drain_logged_post:
  assumes "and_then (drain env q (log q m1 s)) (\<lambda>s'. Some (Inr (log q m2 s'))) = Some r"
  shows "\<exists>evs. run_post env {q} s r evs \<and> (\<forall>s'. r = Inr s' \<longrightarrow> queues s' q = [])"
proof -
  have start: "run_post env {q} s (Inr (log q m1 s)) [Log q m1]"
    by (simp add: run_post_log)
  from assms consider
    (thrown) x where "drain env q (log q m1 s) = Some (Inl x)" "r = Inl x"
  | (normal) s1 where "drain env q (log q m1 s) = Some (Inr s1)" "r = Inr (log q m2 s1)"
    by (auto simp: and_then_Some)
  then show ?thesis
  proof cases
    case thrown
    from drain_post[OF thrown(1)] obtain evs where "run_post env {q} (log q m1 s) (Inl x) evs"
      by blast
    with start have "run_post env {q} s (Inl x) ([Log q m1] @ evs)"
      by (rule run_post_step)
    with thrown(2) show ?thesis by blast
  next
    case normal
    from drain_post[OF normal(1)] obtain evs where
      evs: "run_post env {q} (log q m1 s) (Inr s1) evs" "queues s1 q = []"
      by blast
    have "run_post env {q} s1 (Inr (log q m2 s1)) [Log q m2]"
      by (simp add: run_post_log)
    with evs(1) have "run_post env {q} (log q m1 s) (Inr (log q m2 s1)) (evs @ [Log q m2])"
      by (rule run_post_step)
    with start have "run_post env {q} s (Inr (log q m2 s1)) ([Log q m1] @ evs @ [Log q m2])"
      by (rule run_post_step)
    moreover from evs(2) have "queues (log q m2 s1) q = []"
      by (simp add: log_def)
    ultimately show ?thesis using normal(2) by blast
  qed
qed

lemma runNextTick_post:
  assumes "runNextTick env s = Some r"
  shows "\<exists>evs. run_post env {NextTick} s r evs \<and> (\<forall>s'. r = Inr s' \<longrightarrow> queues s' NextTick = [])"
  using assms unfolding runNextTick_def by (rule drain_logged_post)

lemma runMicrotasks_post:
  assumes "runMicrotasks env s = Some r"
  shows "\<exists>evs. run_post env {Microtasks} s r evs \<and>
           (\<forall>s'. r = Inr s' \<longrightarrow> queues s' Microtasks = [])"
  using assms unfolding runMicrotasks_def by (rule drain_logged_post)

lemma phaseIteration_post:
  assumes "queues s queue = cb # rest" and "phaseIteration env queue s = Some r"
  shows "\<exists>evs. run_post env UNIV s r (Invoke queue cb # evs) \<and> (\<forall>e \<in> set evs. ev_in {Microtasks} e) \<and>
           (\<forall>s'. r = Inr s' \<longrightarrow> queues s' Microtasks = [])"
proof -
  let ?r1 = "invoke env queue cb (s\<lparr>queues := (queues s)(queue := rest)\<rparr>)"
  have step: "run_post env UNIV s ?r1 [Invoke queue cb]"
    using run_post_invoke[OF assms(1), of UNIV env] by simp
  show ?thesis
  proof (cases ?r1)
    case (Inl a)
    with assms have "r = ?r1" by (simp add: phaseIteration_def shift_Cons)
    with step Inl show ?thesis by (intro exI[of _ "[]"]) simp
  next
    case (Inr s1)
    with assms have "runMicrotasks env s1 = Some r" by (simp add: phaseIteration_def shift_Cons)
    from runMicrotasks_post[OF this] obtain evs where
      evs: "run_post env {Microtasks} s1 r evs" "\<forall>s'. r = Inr s' \<longrightarrow> queues s' Microtasks = []"
      by blast
    from evs(1) have "run_post env UNIV s1 r evs" by (rule run_post_weaken) simp
    with step Inr have "run_post env UNIV s r ([Invoke queue cb] @ evs)"
      by (intro run_post_step) simp_all
    moreover from evs(1) have "\<forall>e \<in> set evs. ev_in {Microtasks} e"
      by (simp add: run_post_def)
    ultimately show ?thesis using evs(2) by (intro exI[of _ evs]) simp
  qed
qed

lemma ev_in_Microtasks_loop_ev: "ev_in {Microtasks} e \<Longrightarrow> loop_ev queue e"
  by (cases e) simp_all

lemma phaseLoop_post:
  assumes "phaseLoop env queue s = Some r"
  shows "\<exists>evs. run_post env UNIV s r evs \<and> (\<forall>e \<in> set evs. loop_ev queue e) \<and>
           (\<forall>s'. r = Inr s' \<longrightarrow>
              queues s' queue = [] \<and> (evs \<noteq> [] \<longrightarrow> queues s' Microtasks = []))"
proof (induction rule: phaseLoop.raw_induct[OF _ assms])
  case (1 phaseLoop' env queue s r)
  show ?case
  proof (cases "queues s queue")
    case Nil
    with 1(2) have "r = Inr s" by simp
    with Nil have "run_post env UNIV s r [] \<and> (\<forall>s'. r = Inr s' \<longrightarrow> queues s' queue = [])"
      by (simp add: run_post_refl)
    then show ?thesis by (intro exI[of _ "[]"]) simp
  next
    case (Cons cb rest)
    with 1(2) obtain r1 where r1: "phaseIteration env queue s = Some r1"
      and rest: "(case r1 of Inl e \<Rightarrow> Some (Inl e) | Inr s2 \<Rightarrow> phaseLoop' env queue s2) = Some r"
      by (auto simp: bind_eq_Some_conv)
    from phaseIteration_post[OF Cons r1] obtain xs where
      xs: "run_post env UNIV s r1 (Invoke queue cb # xs)" "\<forall>e \<in> set xs. ev_in {Microtasks} e"
        "\<forall>s'. r1 = Inr s' \<longrightarrow> queues s' Microtasks = []"
      by blast
    then have xs_loop: "\<forall>e \<in> set (Invoke queue cb # xs). loop_ev queue e"
      by (auto intro: ev_in_Microtasks_loop_ev)
    show ?thesis
    proof (cases r1)
      case (Inl a)
      with rest have "r = r1" by simp
      with xs(1) xs_loop Inl show ?thesis by (intro exI[of _ "Invoke queue cb # xs"]) simp
    next
      case (Inr s2)
      with rest have "phaseLoop' env queue s2 = Some r" by simp
      from 1(1)[OF this] obtain ys where
        ys: "run_post env UNIV s2 r ys" "\<forall>e \<in> set ys. loop_ev queue e"
          "\<forall>s'. r = Inr s' \<longrightarrow> queues s' queue = [] \<and> (ys \<noteq> [] \<longrightarrow> queues s' Microtasks = [])"
        by blast
      from xs(3) Inr have drained: "queues s2 Microtasks = []" by simp
      have micro: "queues s' Microtasks = []" if "r = Inr s'" for s'
      proof (cases "ys = []")
        case True
        with ys(1) that have "queues s2 Microtasks = queues s' Microtasks"
          by (simp add: run_post_def conserved_def state_of_def)
        with drained show ?thesis by simp
      next
        case False
        with ys(3) that show ?thesis by simp
      qed
      from xs(1) Inr ys(1) have "run_post env UNIV s r ((Invoke queue cb # xs) @ ys)"
        by (intro run_post_step) simp_all
      moreover from xs_loop ys(2) have "\<forall>e \<in> set ((Invoke queue cb # xs) @ ys). loop_ev queue e"
        by auto
      moreover from ys(3) micro have "\<forall>s'. r = Inr s' \<longrightarrow> queues s' queue = [] \<and>
          ((Invoke queue cb # xs) @ ys \<noteq> [] \<longrightarrow> queues s' Microtasks = [])"
        by simp
      ultimately show ?thesis by blast
    qed
  qed
qed

lemma runPhase_post:
  assumes "runPhase env phase queue s = Some r"
  shows "\<exists>evs. run_post env UNIV s r evs \<and>
           (\<forall>s'. r = Inr s' \<longrightarrow> queues s' queue = [] \<and>
              (\<exists>xs ys. evs = xs @ Log phase (started phase) # ys @ [Log phase (completed phase)] \<and>
                 (\<forall>e \<in> set xs. ev_in {NextTick} e) \<and> (\<forall>e \<in> set ys. loop_ev queue e)))"
proof -
  from assms consider
    (nt_thrown) x where "runNextTick env s = Some (Inl x)" "r = Inl x"
  | (loop_thrown) s1 x where "runNextTick env s = Some (Inr s1)"
      "phaseLoop env queue (log phase (started phase) s1) = Some (Inl x)" "r = Inl x"
  | (normal) s1 s2 where "runNextTick env s = Some (Inr s1)"
      "phaseLoop env queue (log phase (started phase) s1) = Some (Inr s2)"
      "r = Inr (log phase (completed phase) s2)"
    unfolding runPhase_def started_def[symmetric] completed_def[symmetric]
    by (auto simp: and_then_Some)
  then show ?thesis
  proof cases
    case nt_thrown
    from runNextTick_post[OF nt_thrown(1)] obtain evs where "run_post env {NextTick} s (Inl x) evs"
      by blast
    then have "run_post env UNIV s (Inl x) evs" by (rule run_post_weaken) simp
    with nt_thrown(2) show ?thesis by blast
  next
    case loop_thrown
    from runNextTick_post[OF loop_thrown(1)] obtain xs where "run_post env {NextTick} s (Inr s1) xs"
      by blast
    then have a: "run_post env UNIV s (Inr s1) xs" by (rule run_post_weaken) simp
    have b: "run_post env UNIV s1 (Inr (log phase (started phase) s1)) [Log phase (started phase)]"
      by (simp add: run_post_log)
    from phaseLoop_post[OF loop_thrown(2)] obtain ys where
      c: "run_post env UNIV (log phase (started phase) s1) (Inl x) ys" by blast
    from a run_post_step[OF b c] have "run_post env UNIV s (Inl x) (xs @ [Log phase (started phase)] @ ys)"
      by (rule run_post_step)
    with loop_thrown(3) show ?thesis by blast
  next
    case normal
    from runNextTick_post[OF normal(1)] obtain xs where xs: "run_post env {NextTick} s (Inr s1) xs"
      by blast
    then have a: "run_post env UNIV s (Inr s1) xs" by (rule run_post_weaken) simp
    have b: "run_post env UNIV s1 (Inr (log phase (started phase) s1)) [Log phase (started phase)]"
      by (simp add: run_post_log)
    from phaseLoop_post[OF normal(2)] obtain ys where
      c: "run_post env UNIV (log phase (started phase) s1) (Inr s2) ys"
      and ys: "\<forall>e \<in> set ys. loop_ev queue e" and empty: "queues s2 queue = []" by blast
    have d: "run_post env UNIV s2 (Inr (log phase (completed phase) s2)) [Log phase (completed phase)]"
      by (simp add: run_post_log)
    let ?evs = "xs @ [Log phase (started phase)] @ ys @ [Log phase (completed phase)]"
    from a run_post_step[OF b run_post_step[OF c d]]
    have "run_post env UNIV s (Inr (log phase (completed phase) s2)) ?evs"
      by (rule run_post_step)
    moreover from empty have "queues (log phase (completed phase) s2) queue = []"
      by (simp add: log_def)
    moreover from xs have "\<forall>e \<in> set xs. ev_in {NextTick} e"
      by (simp add: run_post_def)
    ultimately show ?thesis using normal(3) ys
      by (intro exI[of _ ?evs]) auto
  qed
qed

lemma and_then_unit: "and_then m (\<lambda>s. Some (Inr s)) = m"
  by (simp add: and_then_def split: option.split sum.split)

lemma run_phases_unfold:
  "run_phases env [] = (\<lambda>s. Some (Inr s))"
  "run_phases env (p # ps) = (\<lambda>s. and_then (runPhase env p p s) (run_phases env ps))"
  by (rule ext, simp)+

lemma tick_run_phases: "tick env s = run_phases env phases s"
  by (simp add: tick_def phases_def run_phases_unfold and_then_unit)

lemma run_phases_post:
  "run_phases env ps s = Some r \<Longrightarrow> \<exists>evs. run_post env UNIV s r evs"
proof (induction ps arbitrary: s)
  case Nil
  then show ?case using run_post_refl by auto
next
  case (Cons p ps)
  from Cons.prems consider
    (thrown) x where "runPhase env p p s = Some (Inl x)" "r = Inl x"
  | (normal) s1 where "runPhase env p p s = Some (Inr s1)" "run_phases env ps s1 = Some r"
    by (auto simp: and_then_Some)
  then show ?case
  proof cases
    case thrown
    with runPhase_post[OF thrown(1)] show ?thesis by blast
  next
    case normal
    from runPhase_post[OF normal(1)] obtain xs where "run_post env UNIV s (Inr s1) xs" by blast
    moreover from Cons.IH[OF normal(2)] obtain ys where "run_post env UNIV s1 r ys" by blast
    ultimately show ?thesis by (blast intro: run_post_step)
  qed
qed

lemma tick_post: "tick env s = Some r \<Longrightarrow> \<exists>evs. run_post env UNIV s r evs"
  unfolding tick_run_phases by (rule run_phases_post)

section \<open>Unfolding the loops on given queues\<close>

lemma drain_Nil: "queues s q = [] \<Longrightarrow> drain env q s = Some (Inr s)"
  by (subst drain.simps) simp

lemma drain_Cons:
  "queues s q = task # rest \<Longrightarrow>
     drain env q s =
       (case invoke env q task (s\<lparr>queues := (queues s)(q := rest)\<rparr>) of
          Inl e \<Rightarrow> Some (Inl e)
        | Inr s' \<Rightarrow> drain env q s')"
  by (subst drain.simps) (simp add: shift_Cons)

lemma phaseLoop_Nil: "queues s queue = [] \<Longrightarrow> phaseLoop env queue s = Some (Inr s)"
  by (subst phaseLoop.simps) simp

lemma phaseLoop_Cons:
  "queues s queue = callback # rest \<Longrightarrow>
     phaseLoop env queue s =
       Option.bind (phaseIteration env queue s)
         (\<lambda>r. case r of Inl e \<Rightarrow> Some (Inl e) | Inr s2 \<Rightarrow> phaseLoop env queue s2)"
  by (subst phaseLoop.simps) simp

lemmas run_eval =
  tick_def runPhase_def runNextTick_def runMicrotasks_def runNextTickAndMicrotasks_def
  phaseIteration_def and_then_def log_def shift_def
  drain_Nil drain_Cons phaseLoop_Nil phaseLoop_Cons constructor_def queue_defs

section \<open>Enqueueing, the idle tick, and microtasks queued before a phase\<close>

text \<open>
  Claim C10. Each of the eight \<open>queue...\<close> methods appends exactly the given item to the
  end of its own queue and leaves the other seven queues and the \<open>running\<close> flag as they
  were (the history is untouched as well).
\<close>

theorem enqueue_operations_frame:
  "appended NextTick cb s (queueNextTick cb s) \<and>
   appended Microtasks cb s (queueMicrotask cb s) \<and>
   appended Timers cb s (queueTimer cb s) \<and>
   appended PendingCallbacks cb s (queuePendingCallback cb s) \<and>
   appended IdlePrepare cb s (queueIdlePrepare cb s) \<and>
   appended Poll cb s (queuePoll cb s) \<and>
   appended Check cb s (queueCheck cb s) \<and>
   appended CloseCallbacks cb s (queueCloseCallback cb s)"
  by (simp add: appended_def queue_defs)

theorem enqueue_operations_frame_witness:
  "queues (queueTimer (Fn 7) constructor) Timers = [Fn 7] \<and>
   queues (queueTimer (Fn 7) constructor) Poll = [] \<and>
   queues (queueCheck Undefined (queueTimer (Fn 7) constructor)) Timers = [Fn 7] \<and>
   queues (queueCheck Undefined (queueTimer (Fn 7) constructor)) Check = [Undefined] \<and>
   running (queueCheck Undefined (queueTimer (Fn 7) constructor)) = False"
  using enqueue_operations_frame[of "Fn 7" constructor]
    enqueue_operations_frame[of Undefined "queueTimer (Fn 7) constructor"]
  by (simp add: appended_def constructor_def)

text \<open>
  Claim C8. \<open>tick()\<close> on a simulator whose eight queues are all empty returns normally,
  calls nothing, and leaves every queue empty: the state is unchanged but for the 24
  lines printed.
\<close>

theorem tick_on_empty_queues:
  assumes "\<forall>q. queues s q = []"
  shows "tick env s = Some (Inr (s\<lparr>trace := trace s @ idle_tick_lines\<rparr>)) \<and>
         invoked idle_tick_lines = []"
  using assms
  by (simp add: tick_def runPhase_def runNextTick_def and_then_def log_def drain_Nil phaseLoop_Nil
      idle_tick_lines_def phases_def started_def completed_def)

theorem tick_on_empty_queues_witness:
  "(\<forall>q. queues constructor q = []) \<and>
   tick quiet constructor = Some (Inr (constructor\<lparr>trace := idle_tick_lines\<rparr>))"
  using tick_on_empty_queues[of constructor quiet]
  by (simp add: constructor_def)

text \<open>
  Claim C1 says that \<open>runPhase\<close> starts with a full priority flush, so that a microtask
  queued before a phase runs before every item of the phase queue. \<open>runPhase\<close> starts with
  \<open>runNextTick\<close> alone: with one microtask (function 0) and one timer (function 1) queued
  before the tick, the timer is called first. With the microtask alone, six phases go by
  and it is never called.
\<close>

theorem microtask_runs_after_first_timer:
  "outcome (tick quiet (queueTimer (Fn 1) (queueMicrotask (Fn 0) constructor))) =
     Some (None, [Invoke Timers (Fn 1), Invoke Microtasks (Fn 0)]) \<and>
   outcome (tick quiet (queueMicrotask (Fn 0) constructor)) = Some (None, []) \<and>
   map_option (\<lambda>r. queues (state_of r) Microtasks) (tick quiet (queueMicrotask (Fn 0) constructor))
     = Some [Fn 0]"
  by (simp add: outcome_def run_eval quiet_def state_of_def)

section \<open>The order of phases\<close>

lemma invoked_from_outside:
  "\<forall>e \<in> set evs. ev_in Q e \<Longrightarrow> q \<notin> Q \<Longrightarrow> invoked_from q evs = []"
  by (induction q evs rule: invoked_from.induct) auto

lemma phase_view_append [simp]: "phase_view (xs @ ys) = phase_view xs @ phase_view ys"
  by (simp add: phase_view_def)








lemma runPhase_empties:
  "runPhase env phase queue s = Some (Inr s') \<Longrightarrow> queues s' queue = []"
  using runPhase_post by blast







section \<open>Drains and re-entrant pushes\<close>

lemma run_post_normal:
  assumes "run_post env Q s (Inr s') evs"
  shows "trace s' = trace s @ evs"
    and "queues s q @ enqueued_during env q evs = invoked_from q evs @ queues s' q"
    and "\<forall>e \<in> set evs. ev_in Q e"
  using assms by (simp_all add: run_post_def conserved_def state_of_def)

lemma runNextTick_drains:
  assumes "runNextTick env s = Some (Inr s')"
  shows "\<exists>evs. trace s' = trace s @ evs \<and> queues s' NextTick = [] \<and>
           (\<forall>e \<in> set evs. ev_in {NextTick} e) \<and>
           invoked_from NextTick evs = queues s NextTick @ enqueued_during env NextTick evs"
proof -
  from runNextTick_post[OF assms] obtain evs where
    post: "run_post env {NextTick} s (Inr s') evs" and empty: "queues s' NextTick = []"
    by blast
  from run_post_normal(1,3)[OF post] run_post_normal(2)[OF post, of NextTick] empty show ?thesis
    by (intro exI[of _ evs]) simp
qed

lemma runMicrotasks_drains:
  assumes "runMicrotasks env s = Some (Inr s')"
  shows "\<exists>evs. trace s' = trace s @ evs \<and> queues s' Microtasks = [] \<and>
           (\<forall>e \<in> set evs. ev_in {Microtasks} e) \<and>
           invoked_from Microtasks evs = queues s Microtasks @ enqueued_during env Microtasks evs \<and>
           invoked_from NextTick evs = [] \<and>
           queues s' NextTick = queues s NextTick @ enqueued_during env NextTick evs"
proof -
  from runMicrotasks_post[OF assms] obtain evs where
    post: "run_post env {Microtasks} s (Inr s') evs" and empty: "queues s' Microtasks = []"
    by blast
  from run_post_normal(3)[OF post] have none: "invoked_from NextTick evs = []"
    by (rule invoked_from_outside) simp
  from run_post_normal(1)[OF post] run_post_normal(2)[OF post, of Microtasks]
    run_post_normal(2)[OF post, of NextTick] run_post_normal(3)[OF post] empty none
  show ?thesis by (intro exI[of _ evs]) simp
qed

text \<open>
  Claim C6. A \<open>runNextTick\<close> that returns has called, in order, everything that was in
  \<open>nextTick\<close> followed by everything its own calls pushed into \<open>nextTick\<close>, and leaves
  that queue empty; the same holds of \<open>runMicrotasks\<close> and \<open>microtasks\<close>. A
  \<open>runMicrotasks\<close> calls nothing from \<open>nextTick\<close>: what its calls push there is still
  queued when it returns, after what was there before. So after the two drains in
  sequence (\<open>runNextTickAndMicrotasks\<close>), \<open>nextTick\<close> holds exactly what the microtasks
  pushed into it, for the next \<open>runNextTick\<close> to find.
\<close>

theorem reentrant_enqueue_in_drains:
  "(runNextTick env s = Some (Inr s') \<longrightarrow>
      (\<exists>evs. trace s' = trace s @ evs \<and> queues s' NextTick = [] \<and>
         invoked_from NextTick evs = queues s NextTick @ enqueued_during env NextTick evs)) \<and>
   (runMicrotasks env s = Some (Inr s') \<longrightarrow>
      (\<exists>evs. trace s' = trace s @ evs \<and> queues s' Microtasks = [] \<and>
         invoked_from Microtasks evs = queues s Microtasks @ enqueued_during env Microtasks evs \<and>
         invoked_from NextTick evs = [] \<and>
         queues s' NextTick = queues s NextTick @ enqueued_during env NextTick evs)) \<and>
   (runNextTickAndMicrotasks env s = Some (Inr s') \<longrightarrow>
      (\<exists>xs ys. trace s' = trace s @ xs @ ys \<and>
         invoked_from NextTick xs = queues s NextTick @ enqueued_during env NextTick xs \<and>
         invoked_from NextTick ys = [] \<and>
         queues s' NextTick = enqueued_during env NextTick ys \<and> queues s' Microtasks = []))"
proof (intro conjI impI)
  assume "runNextTick env s = Some (Inr s')"
  from runNextTick_drains[OF this] show "\<exists>evs. trace s' = trace s @ evs \<and> queues s' NextTick = [] \<and>
      invoked_from NextTick evs = queues s NextTick @ enqueued_during env NextTick evs"
    by blast
next
  assume "runMicrotasks env s = Some (Inr s')"
  from runMicrotasks_drains[OF this] show "\<exists>evs. trace s' = trace s @ evs \<and>
      queues s' Microtasks = [] \<and>
      invoked_from Microtasks evs = queues s Microtasks @ enqueued_during env Microtasks evs \<and>
      invoked_from NextTick evs = [] \<and>
      queues s' NextTick = queues s NextTick @ enqueued_during env NextTick evs"
    by blast
next
  assume "runNextTickAndMicrotasks env s = Some (Inr s')"
  then obtain s1 where first: "runNextTick env s = Some (Inr s1)"
    and second: "runMicrotasks env s1 = Some (Inr s')"
    by (auto simp: runNextTickAndMicrotasks_def and_then_Some)
  from runNextTick_drains[OF first] obtain xs where
    xs: "trace s1 = trace s @ xs" "queues s1 NextTick = []"
      "invoked_from NextTick xs = queues s NextTick @ enqueued_during env NextTick xs"
    by blast
  from runMicrotasks_drains[OF second] obtain ys where
    ys: "trace s' = trace s1 @ ys" "queues s' Microtasks = []" "invoked_from NextTick ys = []"
      "queues s' NextTick = queues s1 NextTick @ enqueued_during env NextTick ys"
    by blast
  from xs ys show "\<exists>xs ys. trace s' = trace s @ xs @ ys \<and>
      invoked_from NextTick xs = queues s NextTick @ enqueued_during env NextTick xs \<and>
      invoked_from NextTick ys = [] \<and>
      queues s' NextTick = enqueued_during env NextTick ys \<and> queues s' Microtasks = []"
    by (intro exI[of _ xs] exI[of _ ys]) simp
qed

theorem reentrant_enqueue_in_drains_witness:
  "\<exists>s1 s2 s3.
     runNextTick reenters (queueMicrotask (Fn 2) (queueNextTick (Fn 0) constructor)) = Some (Inr s1) \<and>
     invoked (trace s1) = [Fn 0, Fn 1] \<and>
     (\<exists>evs. trace s1 = evs \<and> queues s1 NextTick = [] \<and>
        invoked_from NextTick evs = [Fn 0] @ enqueued_during reenters NextTick evs) \<and>
     runMicrotasks reenters (queueMicrotask (Fn 2) (queueNextTick (Fn 0) constructor)) = Some (Inr s2) \<and>
     invoked (trace s2) = [Fn 2, Fn 3] \<and>
     (\<exists>evs. trace s2 = evs \<and> queues s2 Microtasks = [] \<and>
        invoked_from Microtasks evs = [Fn 2] @ enqueued_during reenters Microtasks evs \<and>
        invoked_from NextTick evs = [] \<and>
        queues s2 NextTick = [Fn 0] @ enqueued_during reenters NextTick evs) \<and>
     queues s2 NextTick = [Fn 0, Fn 4] \<and>
     runNextTickAndMicrotasks reenters (queueMicrotask (Fn 2) (queueNextTick (Fn 0) constructor))
       = Some (Inr s3) \<and>
     invoked (trace s3) = [Fn 0, Fn 1, Fn 2, Fn 3] \<and>
     (\<exists>xs ys. trace s3 = xs @ ys \<and>
        invoked_from NextTick xs = [Fn 0] @ enqueued_during reenters NextTick xs \<and>
        invoked_from NextTick ys = [] \<and>
        queues s3 NextTick = enqueued_during reenters NextTick ys \<and> queues s3 Microtasks = []) \<and>
     queues s3 NextTick = [Fn 4]"
proof -
  let ?s = "queueMicrotask (Fn 2) (queueNextTick (Fn 0) constructor)"
  have start: "trace ?s = []" "queues ?s NextTick = [Fn 0]" "queues ?s Microtasks = [Fn 2]"
    by (simp_all add: constructor_def queue_defs)
  have "\<exists>s1. runNextTick reenters ?s = Some (Inr s1) \<and> invoked (trace s1) = [Fn 0, Fn 1]"
    by (simp add: run_eval reenters_def)
  then obtain s1 where r1: "runNextTick reenters ?s = Some (Inr s1)"
    and c1: "invoked (trace s1) = [Fn 0, Fn 1]" by blast
  have "\<exists>s2. runMicrotasks reenters ?s = Some (Inr s2) \<and> invoked (trace s2) = [Fn 2, Fn 3] \<and>
      queues s2 NextTick = [Fn 0, Fn 4]"
    by (simp add: run_eval reenters_def)
  then obtain s2 where r2: "runMicrotasks reenters ?s = Some (Inr s2)"
    and c2: "invoked (trace s2) = [Fn 2, Fn 3]" "queues s2 NextTick = [Fn 0, Fn 4]" by blast
  have "\<exists>s3. runNextTickAndMicrotasks reenters ?s = Some (Inr s3) \<and>
      invoked (trace s3) = [Fn 0, Fn 1, Fn 2, Fn 3] \<and> queues s3 NextTick = [Fn 4]"
    by (simp add: run_eval reenters_def)
  then obtain s3 where r3: "runNextTickAndMicrotasks reenters ?s = Some (Inr s3)"
    and c3: "invoked (trace s3) = [Fn 0, Fn 1, Fn 2, Fn 3]" "queues s3 NextTick = [Fn 4]" by blast
  from reentrant_enqueue_in_drains[of reenters ?s s1] r1 start
  have p1: "\<exists>evs. trace s1 = evs \<and> queues s1 NextTick = [] \<and>
        invoked_from NextTick evs = [Fn 0] @ enqueued_during reenters NextTick evs"
    by simp
  from reentrant_enqueue_in_drains[of reenters ?s s2] r2 start
  have p2: "\<exists>evs. trace s2 = evs \<and> queues s2 Microtasks = [] \<and>
        invoked_from Microtasks evs = [Fn 2] @ enqueued_during reenters Microtasks evs \<and>
        invoked_from NextTick evs = [] \<and>
        queues s2 NextTick = [Fn 0] @ enqueued_during reenters NextTick evs"
    by simp
  from reentrant_enqueue_in_drains[of reenters ?s s3] r3 start
  have p3: "\<exists>xs ys. trace s3 = xs @ ys \<and>
        invoked_from NextTick xs = [Fn 0] @ enqueued_during reenters NextTick xs \<and>
        invoked_from NextTick ys = [] \<and>
        queues s3 NextTick = enqueued_during reenters NextTick ys \<and> queues s3 Microtasks = []"
    by simp
  from r1 c1 p1 r2 c2 p2 r3 c3 p3 show ?thesis by blast
qed

section \<open>Exceptions and queue order\<close>

lemma run_post_conserved:
  "run_post env Q s r evs \<Longrightarrow> conserved env s evs (state_of r)"
  by (simp add: run_post_def)

lemma phaseLoop_drains:
  assumes "phaseLoop env q s = Some (Inr s')"
  shows "\<exists>evs. trace s' = trace s @ evs \<and> queues s' q = [] \<and>
           invoked_from q evs = queues s q @ enqueued_during env q evs"
proof -
  from phaseLoop_post[OF assms] obtain evs where
    post: "run_post env UNIV s (Inr s') evs" and empty: "queues s' q = []"
    by blast
  from run_post_normal(1)[OF post] run_post_normal(2)[OF post, of q] empty show ?thesis
    by (intro exI[of _ evs]) simp
qed

lemma drain_drains:
  assumes "drain env q s = Some (Inr s')"
  shows "\<exists>evs. trace s' = trace s @ evs \<and> queues s' q = [] \<and>
           invoked_from q evs = queues s q @ enqueued_during env q evs"
proof -
  from drain_post[OF assms] obtain evs where
    post: "run_post env {q} s (Inr s') evs" and empty: "queues s' q = []"
    by blast
  from run_post_normal(1)[OF post] run_post_normal(2)[OF post, of q] empty show ?thesis
    by (intro exI[of _ evs]) simp
qed



text \<open>
  Claim C9. A call, whether it returns or throws, leaves what every queue held in place
  and in order and puts what it pushes at the end. Each loop reads the length of its
  queue again at every turn, so when it returns it has called, in order, what the queue
  held followed by everything pushed into it meanwhile. Over a whole \<open>tick()\<close>, however
  it ends, every queue is first-in first-out: what was there followed by what was pushed
  is what was called followed by what is left for a later tick.
\<close>

theorem enqueue_keeps_fifo_order:
  "(\<forall>q'. queues (state_of (invoke env q v s)) q' = queues s q' @ enqueued_by env q' v) \<and>
   (drain env q s = Some (Inr s') \<longrightarrow>
      (\<exists>evs. trace s' = trace s @ evs \<and> queues s' q = [] \<and>
         invoked_from q evs = queues s q @ enqueued_during env q evs)) \<and>
   (phaseLoop env q s = Some (Inr s') \<longrightarrow>
      (\<exists>evs. trace s' = trace s @ evs \<and> queues s' q = [] \<and>
         invoked_from q evs = queues s q @ enqueued_during env q evs)) \<and>
   (tick env s = Some r \<longrightarrow>
      (\<exists>evs. trace (state_of r) = trace s @ evs \<and>
         (\<forall>q'. queues s q' @ enqueued_during env q' evs =
                invoked_from q' evs @ queues (state_of r) q')))"
proof (intro conjI impI allI)
  fix q' show "queues (state_of (invoke env q v s)) q' = queues s q' @ enqueued_by env q' v"
    by (rule invoke_state)
next
  assume "drain env q s = Some (Inr s')"
  then show "\<exists>evs. trace s' = trace s @ evs \<and> queues s' q = [] \<and>
      invoked_from q evs = queues s q @ enqueued_during env q evs"
    by (rule drain_drains)
next
  assume "phaseLoop env q s = Some (Inr s')"
  then show "\<exists>evs. trace s' = trace s @ evs \<and> queues s' q = [] \<and>
      invoked_from q evs = queues s q @ enqueued_during env q evs"
    by (rule phaseLoop_drains)
next
  assume "tick env s = Some r"
  from tick_post[OF this] obtain evs where "conserved env s evs (state_of r)"
    using run_post_conserved by blast
  then show "\<exists>evs. trace (state_of r) = trace s @ evs \<and>
      (\<forall>q'. queues s q' @ enqueued_during env q' evs = invoked_from q' evs @ queues (state_of r) q')"
    unfolding conserved_def by blast
qed

theorem enqueue_keeps_fifo_order_witness:
  "\<exists>s1 s2 r3.
     queues (state_of (invoke grows Timers (Fn 0) (queueTimer (Fn 1) constructor))) Timers
       = [Fn 1, Fn 6] \<and>
     drain grows Timers (queueTimer (Fn 1) (queueTimer (Fn 0) constructor)) = Some (Inr s1) \<and>
     invoked_from Timers (trace s1) = [Fn 0, Fn 1, Fn 6] \<and>
     (\<exists>evs. trace s1 = evs \<and> queues s1 Timers = [] \<and>
        invoked_from Timers evs = [Fn 0, Fn 1] @ enqueued_during grows Timers evs) \<and>
     phaseLoop grows Timers (queueTimer (Fn 1) (queueTimer (Fn 0) constructor)) = Some (Inr s2) \<and>
     invoked_from Timers (trace s2) = [Fn 0, Fn 1, Fn 6] \<and>
     (\<exists>evs. trace s2 = evs \<and> queues s2 Timers = [] \<and>
        invoked_from Timers evs = [Fn 0, Fn 1] @ enqueued_during grows Timers evs) \<and>
     tick grows (queueCheck (Fn 3) (queueTimer (Fn 1) (queueTimer (Fn 0) constructor)))
       = Some r3 \<and>
     invoked_from Timers (trace (state_of r3)) = [Fn 0, Fn 1, Fn 6] \<and>
     invoked_from Check (trace (state_of r3)) = [Fn 3, Fn 5] \<and>
     (\<exists>evs. trace (state_of r3) = evs \<and>
        [Fn 0, Fn 1] @ enqueued_during grows Timers evs
          = invoked_from Timers evs @ queues (state_of r3) Timers \<and>
        [Fn 3] @ enqueued_during grows Check evs
          = invoked_from Check evs @ queues (state_of r3) Check)"
proof -
  let ?t = "queueTimer (Fn 1) (queueTimer (Fn 0) constructor)"
  let ?s = "queueCheck (Fn 3) ?t"
  have start: "trace ?t = []" "queues ?t Timers = [Fn 0, Fn 1]" "trace ?s = []"
    "queues ?s Timers = [Fn 0, Fn 1]" "queues ?s Check = [Fn 3]"
    by (simp_all add: constructor_def queue_defs)
  have "\<exists>s1. drain grows Timers ?t = Some (Inr s1) \<and>
      invoked_from Timers (trace s1) = [Fn 0, Fn 1, Fn 6]"
    by (simp add: run_eval grows_def)
  then obtain s1 where r1: "drain grows Timers ?t = Some (Inr s1)"
    and c1: "invoked_from Timers (trace s1) = [Fn 0, Fn 1, Fn 6]"
    by blast
  have "\<exists>s2. phaseLoop grows Timers ?t = Some (Inr s2) \<and>
      invoked_from Timers (trace s2) = [Fn 0, Fn 1, Fn 6]"
    by (simp add: run_eval grows_def)
  then obtain s2 where r2: "phaseLoop grows Timers ?t = Some (Inr s2)"
    and c2: "invoked_from Timers (trace s2) = [Fn 0, Fn 1, Fn 6]" by blast
  have "\<exists>s3. tick grows ?s = Some (Inr s3) \<and> invoked_from Timers (trace s3) = [Fn 0, Fn 1, Fn 6] \<and>
     invoked_from Check (trace s3) = [Fn 3, Fn 5]"
    by (simp add: run_eval grows_def)
  then obtain r3 where r3: "tick grows ?s = Some r3"
    and c3: "invoked_from Timers (trace (state_of r3)) = [Fn 0, Fn 1, Fn 6]"
      "invoked_from Check (trace (state_of r3)) = [Fn 3, Fn 5]"
    by (auto simp: state_of_def)
  note fifo = enqueue_keeps_fifo_order
  from fifo[of grows Timers "Fn 0" "queueTimer (Fn 1) constructor"]
  have p0: "queues (state_of (invoke grows Timers (Fn 0) (queueTimer (Fn 1) constructor))) Timers
      = [Fn 1, Fn 6]"
    by (simp add: constructor_def queue_defs grows_def)
  from fifo[of grows Timers _ ?t s1] r1 start
  have p1: "\<exists>evs. trace s1 = evs \<and> queues s1 Timers = [] \<and>
        invoked_from Timers evs = [Fn 0, Fn 1] @ enqueued_during grows Timers evs"
    by simp
  from fifo[of grows Timers _ ?t s2] r2 start
  have p2: "\<exists>evs. trace s2 = evs \<and> queues s2 Timers = [] \<and>
        invoked_from Timers evs = [Fn 0, Fn 1] @ enqueued_during grows Timers evs"
    by simp
  from fifo[of grows _ _ ?s _ r3] r3 start
  have p3: "\<exists>evs. trace (state_of r3) = evs \<and>
        [Fn 0, Fn 1] @ enqueued_during grows Timers evs
          = invoked_from Timers evs @ queues (state_of r3) Timers \<and>
        [Fn 3] @ enqueued_during grows Check evs
          = invoked_from Check evs @ queues (state_of r3) Check"
    by (metis append_Nil)
  from p0 r1 c1 p1 r2 c2 p2 r3 c3 p3 show ?thesis by blast
qed

section \<open>What is queued when a phase item is shifted\<close>












section \<open>The recorded run of the sample program\<close>

text \<open>
  The first tick of the sample program returns normally and calls the functions in the
  order of the output recorded at the end of that program.
\<close>

lemma sample_first_tick:
  "map_option (\<lambda>r. (isl r, invoked (trace (state_of r)))) (tick sample sample_start) =
     Some (False, map Fn [0, 1, 11, 4, 2, 3, 10, 12, 5, 6, 7, 8, 9, 15, 14, 16, 17, 18, 13, 19, 20])"
  by (simp add: sample_start_def run_eval sample_def state_of_def)

end
